theory Spec2Isabelle
  imports Main "HOL-Library.Word" "HOL-Library.Multiset"
begin

section \<open>Pointers to externally owned objects\<close>

text \<open>
  Stripables and controllables are owned outside the selection. An object is identified
  by the address of its ownership record (the control block shared by every
  \<open>shared_ptr\<close> and \<open>weak_ptr\<close> to it), which is never reused while a pointer to the
  object exists. A \<open>shared_ptr\<close> is \<open>None\<close> (null) or \<open>Some a\<close>; a \<open>weak_ptr\<close> is
  \<open>None\<close> (empty: default constructed, or constructed from a null \<open>shared_ptr\<close>) or
  \<open>Some a\<close> (it refers to object \<open>a\<close>, which may have expired since). A stripable and a
  controllable are different objects, so one liveness predicate on addresses serves both.
  A caller's non-null \<open>shared_ptr\<close> keeps its object alive; a property that depends on
  this says \<open>alive w a\<close>.
\<close>

type_synonym addr = nat
type_synonym shared_ptr = "addr option"
type_synonym weak_ptr = "addr option"

text \<open>
  The surroundings of a call: which objects are alive, and whether the
  \<open>DEBUG::Selection\<close> bit is set, so that \<open>DEBUG_TRACE\<close> evaluates its message
  argument. The macro is declared outside these sources and is taken as this parameter.
\<close>

record world =
  alive :: "addr \<Rightarrow> bool"
  debug_selection :: bool

definition lock :: "world \<Rightarrow> weak_ptr \<Rightarrow> shared_ptr" where
  "lock w p = (case p of None \<Rightarrow> None | Some a \<Rightarrow> if alive w a then Some a else None)"

text \<open>
  \<open>owner_before\<close> orders pointers by the address of the ownership record, a null or empty
  pointer (no record) first. It is also \<open>operator<\<close> of \<open>boost::shared_ptr\<close>.
\<close>

fun owner_before :: "addr option \<Rightarrow> addr option \<Rightarrow> bool" where
  "owner_before None None = False"
| "owner_before None (Some y) = True"
| "owner_before (Some x) None = False"
| "owner_before (Some x) (Some y) = (x < y)"

definition weak_ptr_is_not_null :: "weak_ptr \<Rightarrow> bool" where
  "weak_ptr_is_not_null p = (owner_before p None \<or> owner_before None p)"

section \<open>CoreSelection\<close>

text \<open>
  The header declares neither the \<open>order\<close> member, the counter \<open>selection_order\<close>, nor
  \<open>StripableControllable\<close> and \<open>get_stripables\<close>; they are taken as \<open>selection.cc\<close> uses
  them: \<open>order\<close> is an \<open>int\<close> (the constructor's third parameter), the counter is what
  \<open>g_atomic_int_add\<close> advances, a \<open>StripableControllable\<close> is built from two locked
  pointers and an order value.
\<close>

record SelectedStripable =
  stripable :: weak_ptr
  controllable :: weak_ptr
  order :: "32 word"

record StripableControllable =
  sc_stripable :: shared_ptr
  sc_controllable :: shared_ptr
  sc_order :: "32 word"

text \<open>\<open>SelectedStripable::operator<\<close>: both sides are locked when the comparison is made.\<close>

definition ss_less :: "world \<Rightarrow> SelectedStripable \<Rightarrow> SelectedStripable \<Rightarrow> bool" where
  "ss_less w a b =
     (let s1 = lock w (stripable a); c1 = lock w (controllable a);
          s2 = lock w (stripable b); c2 = lock w (controllable b)
      in if s1 = s2 then owner_before c1 c2 else owner_before s1 s2)"

text \<open>
  The \<open>std::set\<close> of entries is the list of its elements in iteration order. Searching
  walks the elements with the comparator; an element that is neither less nor greater
  than the sought entry is equivalent to it, and \<open>insert\<close> adds nothing when it meets
  one. The container requires its elements to be in ascending comparator order
  (\<open>set_ok\<close>); the comparator depends on which objects are alive, so the requirement is
  relative to the world. On ordered entries the walk computes what \<open>std::set\<close> computes.
  On entries that an expiry has left out of order a search tree descends from its root
  and can answer differently from a walk from the front, so general properties of
  \<open>find\<close> and \<open>insert\<close> are stated for ordered entries only, and a concrete run on
  disordered entries is given only where the descent and the walk take the same turns.
\<close>

definition set_ok :: "world \<Rightarrow> SelectedStripable list \<Rightarrow> bool" where
  "set_ok w xs = sorted_wrt (ss_less w) xs"

fun set_find :: "world \<Rightarrow> SelectedStripable \<Rightarrow> SelectedStripable list \<Rightarrow> nat option" where
  "set_find w ss [] = None"
| "set_find w ss (e # es) =
     (if ss_less w e ss then map_option Suc (set_find w ss es)
      else if ss_less w ss e then None
      else Some 0)"

fun set_insert ::
  "world \<Rightarrow> SelectedStripable \<Rightarrow> SelectedStripable list \<Rightarrow> SelectedStripable list \<times> bool" where
  "set_insert w ss [] = ([ss], True)"
| "set_insert w ss (e # es) =
     (if ss_less w e ss then (case set_insert w ss es of (es', b) \<Rightarrow> (e # es', b))
      else if ss_less w ss e then (ss # e # es, True)
      else (e # es, False))"

definition set_erase :: "nat \<Rightarrow> SelectedStripable list \<Rightarrow> SelectedStripable list" where
  "set_erase i xs = take i xs @ drop (Suc i) xs"

text \<open>
  The selection: the entries, the order counter (a C \<open>int\<close>, advanced by
  \<open>g_atomic_int_add\<close>, which returns the value before the addition and wraps), and the
  number of change notifications sent so far.
\<close>

record CoreSelection =
  stripables :: "SelectedStripable list"
  selection_order :: "32 word"
  changes_sent :: nat

datatype fault = NullDereference

definition CoreSelection_init :: CoreSelection where
  "CoreSelection_init = \<lparr>stripables = [], selection_order = 0, changes_sent = 0\<rparr>"

definition send_selection_change :: "CoreSelection \<Rightarrow> CoreSelection" where
  "send_selection_change st = st\<lparr>changes_sent := Suc (changes_sent st)\<rparr>"

text \<open>
  \<open>add\<close>: the order value is taken from the counter before the insertion is tried.
  Both trace messages format \<open>s->name()\<close>, which dereferences \<open>s\<close> when the trace is
  active; \<open>remove\<close> and \<open>toggle\<close> format the pointers themselves.
\<close>

definition add :: "world \<Rightarrow> CoreSelection \<Rightarrow> shared_ptr \<Rightarrow> shared_ptr \<Rightarrow> fault + CoreSelection" where
  "add w st s c =
     (let ss = \<lparr>stripable = s, controllable = c, order = selection_order st\<rparr>;
          st1 = st\<lparr>selection_order := selection_order st + 1\<rparr>
      in case set_insert w ss (stripables st1) of
           (xs, inserted) \<Rightarrow>
             if debug_selection w \<and> s = None then Inl NullDereference
             else if inserted then Inr (send_selection_change (st1\<lparr>stripables := xs\<rparr>))
             else Inr st1)"

definition remove :: "world \<Rightarrow> CoreSelection \<Rightarrow> shared_ptr \<Rightarrow> shared_ptr \<Rightarrow> CoreSelection" where
  "remove w st s c =
     (let ss = \<lparr>stripable = s, controllable = c, order = 0\<rparr>
      in case set_find w ss (stripables st) of
           Some i \<Rightarrow> send_selection_change (st\<lparr>stripables := set_erase i (stripables st)\<rparr>)
         | None \<Rightarrow> st)"

text \<open>
  \<open>set\<close>: the order value is taken before the test; the early return sends nothing.
  After the replacement the trace message formats \<open>s->name()\<close>.
\<close>

definition set_selection :: "world \<Rightarrow> CoreSelection \<Rightarrow> shared_ptr \<Rightarrow> shared_ptr \<Rightarrow> fault + CoreSelection" where
  "set_selection w st s c =
     (let ss = \<lparr>stripable = s, controllable = c, order = selection_order st\<rparr>;
          st1 = st\<lparr>selection_order := selection_order st + 1\<rparr>
      in if length (stripables st1) = 1 \<and> set_find w ss (stripables st1) \<noteq> None then Inr st1
         else if debug_selection w \<and> s = None then Inl NullDereference
         else Inr (send_selection_change (st1\<lparr>stripables := fst (set_insert w ss [])\<rparr>)))"

definition clear_stripables :: "CoreSelection \<Rightarrow> CoreSelection" where
  "clear_stripables st =
     (if stripables st \<noteq> [] then send_selection_change (st\<lparr>stripables := []\<rparr>) else st)"

fun selected_stripable_loop :: "world \<Rightarrow> shared_ptr \<Rightarrow> SelectedStripable list \<Rightarrow> bool" where
  "selected_stripable_loop w s [] = False"
| "selected_stripable_loop w s (x # xs) =
     (if weak_ptr_is_not_null (controllable x) then selected_stripable_loop w s xs
      else if s = lock w (stripable x) then True
      else selected_stripable_loop w s xs)"

definition selected_stripable :: "world \<Rightarrow> CoreSelection \<Rightarrow> shared_ptr \<Rightarrow> bool" where
  "selected_stripable w st s =
     (if s = None then False else selected_stripable_loop w s (stripables st))"

fun selected_controllable_loop :: "world \<Rightarrow> shared_ptr \<Rightarrow> SelectedStripable list \<Rightarrow> bool" where
  "selected_controllable_loop w c [] = False"
| "selected_controllable_loop w c (x # xs) =
     (if c = lock w (controllable x) then True else selected_controllable_loop w c xs)"

definition selected_controllable :: "world \<Rightarrow> CoreSelection \<Rightarrow> shared_ptr \<Rightarrow> bool" where
  "selected_controllable w st c =
     (if c = None then False else selected_controllable_loop w c (stripables st))"

definition toggle :: "world \<Rightarrow> CoreSelection \<Rightarrow> shared_ptr \<Rightarrow> shared_ptr \<Rightarrow> fault + CoreSelection" where
  "toggle w st s c =
     (if (c \<noteq> None \<and> selected_controllable w st c) \<or> selected_stripable w st s
      then Inr (remove w st s c)
      else add w st s c)"

text \<open>
  \<open>get_stripables\<close> appends the entries with a live stripable or controllable to the
  caller's vector and sorts the vector by order value (signed comparison). \<open>std::sort\<close>
  leaves the relative position of elements with equal order values open; \<open>sort_key\<close> is
  one such sort.
\<close>

fun live_entries :: "world \<Rightarrow> SelectedStripable list \<Rightarrow> StripableControllable list" where
  "live_entries w [] = []"
| "live_entries w (x # xs) =
     (let s = lock w (stripable x); c = lock w (controllable x)
      in if s \<noteq> None \<or> c \<noteq> None
         then \<lparr>sc_stripable = s, sc_controllable = c, sc_order = order x\<rparr> # live_entries w xs
         else live_entries w xs)"

definition get_stripables ::
  "world \<Rightarrow> CoreSelection \<Rightarrow> StripableControllable list \<Rightarrow> StripableControllable list" where
  "get_stripables w st sc = sort_key (\<lambda>e. sint (sc_order e)) (sc @ live_entries w (stripables st))"

section \<open>Sequences of operations\<close>

text \<open>
  A trace is a list of operations, each performed in the world of its call: between two
  calls objects may expire and the trace bit may change. The first fault ends the run.
\<close>

datatype operation =
    Toggle shared_ptr shared_ptr
  | Add shared_ptr shared_ptr
  | Remove shared_ptr shared_ptr
  | Set shared_ptr shared_ptr
  | ClearStripables

fun perform :: "world \<Rightarrow> CoreSelection \<Rightarrow> operation \<Rightarrow> fault + CoreSelection" where
  "perform w st (Toggle s c) = toggle w st s c"
| "perform w st (Add s c) = add w st s c"
| "perform w st (Remove s c) = Inr (remove w st s c)"
| "perform w st (Set s c) = set_selection w st s c"
| "perform w st ClearStripables = Inr (clear_stripables st)"

fun run :: "CoreSelection \<Rightarrow> (world \<times> operation) list \<Rightarrow> fault + CoreSelection" where
  "run st [] = Inr st"
| "run st ((w, op) # rest) =
     (case perform w st op of Inl f \<Rightarrow> Inl f | Inr st' \<Rightarrow> run st' rest)"

section \<open>RouteProcessorSelection\<close>

text \<open>
  The adapter keeps \<open>axes\<close>, a \<open>std::set\<close> of raw \<open>AxisView\<close> pointers, next to the
  session's \<open>CoreSelection\<close> (\<open>shp.session()->selection()\<close>). A view is identified by
  its address; \<open>stripable_of\<close> stands for \<open>r->stripable()\<close>. The calls are modelled as
  made on the GUI thread, where \<open>ENSURE_GUI_THREAD\<close> lets the call proceed; the
  \<open>CatchDeletion\<close> connection made by \<open>add\<close> and the \<open>ChangeSuspender\<close> of
  \<open>clear_routes\<close> only schedule or delay signals and change none of the three fields.
\<close>

type_synonym AxisView = nat

record RouteProcessorSelection =
  axes :: "AxisView set"
  processors :: "addr list"
  selection :: CoreSelection

text \<open>
  Modelled from the spec: the base class \<open>ProcessorSelection\<close>, with its member
  \<open>processors\<close> and its method \<open>clear_processors\<close>, is declared outside these sources.
  The spec only speaks of a tracked processor selection that can be empty and is cleared
  by \<open>clear()\<close>; it is a list of processor identities here, which \<open>clear_processors\<close>
  empties. A method of the base class cannot reach \<open>axes\<close>, a member of the derived class.
\<close>

definition clear_processors :: "RouteProcessorSelection \<Rightarrow> RouteProcessorSelection" where
  "clear_processors st = st\<lparr>processors := []\<rparr>"

definition clear_routes :: "RouteProcessorSelection \<Rightarrow> RouteProcessorSelection" where
  "clear_routes st = st\<lparr>selection := clear_stripables (selection st)\<rparr>"

definition rps_clear :: "RouteProcessorSelection \<Rightarrow> RouteProcessorSelection" where
  "rps_clear st = clear_routes (clear_processors st)"

definition rps_add ::
  "world \<Rightarrow> (AxisView \<Rightarrow> shared_ptr) \<Rightarrow> RouteProcessorSelection \<Rightarrow> AxisView \<Rightarrow>
     fault + RouteProcessorSelection" where
  "rps_add w stripable_of st r =
     (if r \<notin> axes st
      then (case add w (selection st) (stripable_of r) None of
              Inl f \<Rightarrow> Inl f
            | Inr cs \<Rightarrow> Inr (st\<lparr>axes := insert r (axes st), selection := cs\<rparr>))
      else Inr st)"

definition rps_remove ::
  "world \<Rightarrow> (AxisView \<Rightarrow> shared_ptr) \<Rightarrow> RouteProcessorSelection \<Rightarrow> AxisView \<Rightarrow>
     RouteProcessorSelection" where
  "rps_remove w stripable_of st r =
     st\<lparr>selection := remove w (selection st) (stripable_of r) None\<rparr>"

definition rps_set ::
  "world \<Rightarrow> (AxisView \<Rightarrow> shared_ptr) \<Rightarrow> RouteProcessorSelection \<Rightarrow> AxisView \<Rightarrow>
     fault + RouteProcessorSelection" where
  "rps_set w stripable_of st r =
     (case set_selection w (selection st) (stripable_of r) None of
        Inl f \<Rightarrow> Inl f
      | Inr cs \<Rightarrow> Inr (st\<lparr>selection := cs\<rparr>))"

definition rps_selected :: "RouteProcessorSelection \<Rightarrow> AxisView \<Rightarrow> bool" where
  "rps_selected st r = (r \<in> axes st)"

definition rps_empty :: "RouteProcessorSelection \<Rightarrow> bool" where
  "rps_empty st = (processors st = [] \<and> axes st = {})"

definition rps_init :: RouteProcessorSelection where
  "rps_init = \<lparr>axes = {}, processors = [], selection = CoreSelection_init\<rparr>"

section \<open>Notions used by the properties\<close>

text \<open>
  The identity of an entry as the comparator sees it: the pair of its locked pointers, so
  that an expired reference counts as null. \<open>same_identity\<close> compares an entry with the
  arguments of a call.
\<close>

definition entry_identity :: "world \<Rightarrow> SelectedStripable \<Rightarrow> shared_ptr \<times> shared_ptr" where
  "entry_identity w e = (lock w (stripable e), lock w (controllable e))"

definition same_identity :: "world \<Rightarrow> shared_ptr \<Rightarrow> shared_ptr \<Rightarrow> SelectedStripable \<Rightarrow> bool" where
  "same_identity w s c e \<longleftrightarrow>
     lock w (stripable e) = lock w s \<and> lock w (controllable e) = lock w c"

text \<open>What \<open>get_stripables\<close> keeps of an entry, and which entries it keeps.\<close>

definition is_live :: "world \<Rightarrow> SelectedStripable \<Rightarrow> bool" where
  "is_live w x \<longleftrightarrow> lock w (stripable x) \<noteq> None \<or> lock w (controllable x) \<noteq> None"

definition snapshot :: "world \<Rightarrow> SelectedStripable \<Rightarrow> StripableControllable" where
  "snapshot w x =
     \<lparr>sc_stripable = lock w (stripable x), sc_controllable = lock w (controllable x),
      sc_order = order x\<rparr>"

text \<open>
  Order values are fresh when they are pairwise distinct and below the counter (read as
  unsigned).
\<close>

definition orders_fresh :: "CoreSelection \<Rightarrow> bool" where
  "orders_fresh st \<longleftrightarrow>
     distinct (map order (stripables st)) \<and>
     (\<forall>e\<in>set (stripables st). unat (order e) < unat (selection_order st))"

subsection \<open>Concrete worlds and selections\<close>

definition world_all_alive :: world where
  "world_all_alive = \<lparr>alive = (\<lambda>a. True), debug_selection = False\<rparr>"

definition world_only_1_alive :: world where
  "world_only_1_alive = \<lparr>alive = (\<lambda>a. a = 1), debug_selection = False\<rparr>"

definition world_only_3_alive :: world where
  "world_only_3_alive = \<lparr>alive = (\<lambda>a. a = 3), debug_selection = False\<rparr>"

definition world_13_expired :: world where
  "world_13_expired = \<lparr>alive = (\<lambda>a. a \<noteq> 13), debug_selection = False\<rparr>"

definition world_tracing :: world where
  "world_tracing = \<lparr>alive = (\<lambda>a. True), debug_selection = True\<rparr>"

definition selection_S1_C2 :: CoreSelection where
  "selection_S1_C2 =
     \<lparr>stripables = [\<lparr>stripable = Some 1, controllable = Some 2, order = 0\<rparr>],
      selection_order = 1, changes_sent = 1\<rparr>"

definition selection_S1_S2 :: CoreSelection where
  "selection_S1_S2 =
     \<lparr>stripables = [\<lparr>stripable = Some 1, controllable = None, order = 0\<rparr>,
                    \<lparr>stripable = Some 2, controllable = None, order = 1\<rparr>],
      selection_order = 2, changes_sent = 2\<rparr>"

definition selection_S1_S2_S3 :: CoreSelection where
  "selection_S1_S2_S3 =
     \<lparr>stripables = [\<lparr>stripable = Some 1, controllable = None, order = 0\<rparr>,
                    \<lparr>stripable = Some 2, controllable = None, order = 1\<rparr>,
                    \<lparr>stripable = Some 3, controllable = None, order = 2\<rparr>],
      selection_order = 3, changes_sent = 3\<rparr>"

definition selection_three_controls :: CoreSelection where
  "selection_three_controls =
     \<lparr>stripables = [\<lparr>stripable = Some 1, controllable = Some 11, order = 0\<rparr>,
                    \<lparr>stripable = Some 1, controllable = Some 12, order = 1\<rparr>,
                    \<lparr>stripable = Some 1, controllable = Some 13, order = 2\<rparr>],
      selection_order = 3, changes_sent = 3\<rparr>"

definition selection_three_controls_and_S1 :: CoreSelection where
  "selection_three_controls_and_S1 =
     \<lparr>stripables = [\<lparr>stripable = Some 1, controllable = None, order = 3\<rparr>,
                    \<lparr>stripable = Some 1, controllable = Some 11, order = 0\<rparr>,
                    \<lparr>stripable = Some 1, controllable = Some 12, order = 1\<rparr>,
                    \<lparr>stripable = Some 1, controllable = Some 13, order = 2\<rparr>],
      selection_order = 4, changes_sent = 4\<rparr>"

definition selection_out_of_order :: CoreSelection where
  "selection_out_of_order =
     \<lparr>stripables = [\<lparr>stripable = Some 1, controllable = None, order = 1\<rparr>,
                    \<lparr>stripable = Some 2, controllable = None, order = 0\<rparr>],
      selection_order = 2, changes_sent = 2\<rparr>"

definition selection_equal_orders :: CoreSelection where
  "selection_equal_orders =
     \<lparr>stripables = [\<lparr>stripable = Some 1, controllable = None, order = 0\<rparr>,
                    \<lparr>stripable = Some 2, controllable = None, order = 0\<rparr>],
      selection_order = 1, changes_sent = 2\<rparr>"

definition own_stripable :: "AxisView \<Rightarrow> shared_ptr" where
  "own_stripable r = Some r"

definition rps_view_7 :: RouteProcessorSelection where
  "rps_view_7 =
     \<lparr>axes = {7}, processors = [],
      selection = \<lparr>stripables = [\<lparr>stripable = Some 7, controllable = None, order = 0\<rparr>],
                   selection_order = 1, changes_sent = 1\<rparr>\<rparr>"

definition rps_three_controls :: RouteProcessorSelection where
  "rps_three_controls = \<lparr>axes = {}, processors = [], selection = selection_three_controls\<rparr>"

definition rps_three_controls_and_view_1 :: RouteProcessorSelection where
  "rps_three_controls_and_view_1 =
     \<lparr>axes = {1}, processors = [], selection = selection_three_controls_and_S1\<rparr>"

section \<open>Pointers and the two queries\<close>

lemma weak_ptr_is_not_null_iff: "weak_ptr_is_not_null p \<longleftrightarrow> p \<noteq> None"
  by (cases p) (simp_all add: weak_ptr_is_not_null_def)

lemma selected_stripable_loop_iff:
  "selected_stripable_loop w s xs \<longleftrightarrow>
     (\<exists>x\<in>set xs. controllable x = None \<and> lock w (stripable x) = s)"
  by (induction xs) (auto simp: weak_ptr_is_not_null_iff)

lemma selected_controllable_loop_iff:
  "selected_controllable_loop w c xs \<longleftrightarrow> (\<exists>x\<in>set xs. lock w (controllable x) = c)"
  by (induction xs) auto

lemma selected_stripable_iff:
  "selected_stripable w st s \<longleftrightarrow>
     s \<noteq> None \<and>
     (\<exists>e\<in>set (stripables st). lock w (stripable e) = s \<and> controllable e = None)"
  by (auto simp: selected_stripable_def selected_stripable_loop_iff)

lemma selected_null: "\<not> selected_stripable w st None \<and> \<not> selected_controllable w st None"
  by (simp add: selected_stripable_def selected_controllable_def)

lemma lock_alive: "alive w a \<Longrightarrow> lock w (Some a) = Some a"
  by (simp add: lock_def)

lemma lock_None: "lock w None = None"
  by (simp add: lock_def)

section \<open>The comparator is a strict order on identities\<close>

lemma owner_before_irrefl: "\<not> owner_before a a"
  by (cases a) simp_all

lemma owner_before_trans: "owner_before a b \<Longrightarrow> owner_before b c \<Longrightarrow> owner_before a c"
  by (cases a; cases b; cases c) simp_all

lemma owner_before_total: "owner_before a b \<or> a = b \<or> owner_before b a"
  by (cases a; cases b) auto

lemma owner_before_asym: "owner_before a b \<Longrightarrow> \<not> owner_before b a"
  by (cases a; cases b) auto

lemma ss_less_irrefl: "\<not> ss_less w a a"
  by (simp add: ss_less_def owner_before_irrefl)

lemma ss_less_trans: "ss_less w a b \<Longrightarrow> ss_less w b c \<Longrightarrow> ss_less w a c"
  by (auto simp: ss_less_def Let_def owner_before_irrefl split: if_splits
      dest: owner_before_trans owner_before_asym)

lemma ss_equiv_iff: "\<not> ss_less w a b \<and> \<not> ss_less w b a \<longleftrightarrow> entry_identity w a = entry_identity w b"
  using owner_before_total[of "lock w (stripable a)" "lock w (stripable b)"]
    owner_before_total[of "lock w (controllable a)" "lock w (controllable b)"]
  by (auto simp: ss_less_def Let_def entry_identity_def owner_before_irrefl)

lemma same_identity_key:
  "same_identity w s c e \<longleftrightarrow> entry_identity w e = entry_identity w \<lparr>stripable = s, controllable = c, order = n\<rparr>"
  by (simp add: same_identity_def entry_identity_def)

section \<open>The container on ordered entries\<close>

lemma set_insert_same: "\<not> snd (set_insert w ss xs) \<Longrightarrow> fst (set_insert w ss xs) = xs"
  by (induction xs) (auto split: prod.splits if_splits)

lemma set_insert_set: "snd (set_insert w ss xs) \<Longrightarrow> set (fst (set_insert w ss xs)) = insert ss (set xs)"
  by (induction xs) (auto split: prod.splits if_splits)

lemma set_insert_split:
  "snd (set_insert w ss xs) \<Longrightarrow>
     \<exists>ys zs. xs = ys @ zs \<and> fst (set_insert w ss xs) = ys @ ss # zs"
proof (induction xs)
  case Nil
  then show ?case by simp
next
  case (Cons e es)
  show ?case
  proof (cases "ss_less w e ss")
    case True
    obtain es' b where r: "set_insert w ss es = (es', b)" by (cases "set_insert w ss es")
    then have "snd (set_insert w ss es)" using Cons.prems True by simp
    then obtain ys zs where sp: "es = ys @ zs" "fst (set_insert w ss es) = ys @ ss # zs"
      using Cons.IH by blast
    have "es' = ys @ ss # zs" using sp(2) r by simp
    then have "fst (set_insert w ss (e # es)) = (e # ys) @ ss # zs"
      using True r by simp
    moreover have "e # es = (e # ys) @ zs" using sp(1) by simp
    ultimately show ?thesis by blast
  next
    case False
    then have "ss_less w ss e" using Cons.prems by (simp split: if_splits)
    then have "e # es = [] @ (e # es) \<and> fst (set_insert w ss (e # es)) = [] @ ss # (e # es)"
      using False by simp
    then show ?thesis by blast
  qed
qed

lemma set_insert_ok: "set_ok w xs \<Longrightarrow> set_ok w (fst (set_insert w ss xs))"
proof (induction xs)
  case Nil
  then show ?case by (simp add: set_ok_def)
next
  case (Cons e es)
  show ?case
  proof (cases "ss_less w e ss")
    case True
    obtain es' b where r: "set_insert w ss es = (es', b)" by (cases "set_insert w ss es")
    have ok: "set_ok w es'" using Cons r by (simp add: set_ok_def)
    have "set es' \<subseteq> insert ss (set es)"
      using r set_insert_set[of w ss es] set_insert_same[of w ss es] by (cases b) auto
    then have "\<forall>y\<in>set es'. ss_less w e y" using Cons.prems True by (auto simp: set_ok_def)
    then show ?thesis using True r ok by (simp add: set_ok_def)
  next
    case False
    show ?thesis
    proof (cases "ss_less w ss e")
      case True
      then have "\<forall>y\<in>set es. ss_less w ss y" using Cons.prems
        by (auto simp: set_ok_def intro: ss_less_trans)
      then show ?thesis using False True Cons.prems by (simp add: set_ok_def)
    next
      case F2: False
      then show ?thesis using False Cons.prems by simp
    qed
  qed
qed

lemma set_insert_inserted_iff:
  "set_ok w xs \<Longrightarrow> snd (set_insert w ss xs) \<longleftrightarrow> (\<forall>e\<in>set xs. entry_identity w e \<noteq> entry_identity w ss)"
proof (induction xs)
  case Nil
  then show ?case by simp
next
  case (Cons e es)
  have ok: "set_ok w es" and lt: "\<forall>y\<in>set es. ss_less w e y"
    using Cons.prems by (simp_all add: set_ok_def)
  show ?case
  proof (cases "ss_less w e ss")
    case True
    then have "entry_identity w e \<noteq> entry_identity w ss" using ss_equiv_iff by blast
    then show ?thesis using True Cons.IH[OF ok] by (auto split: prod.splits)
  next
    case False
    show ?thesis
    proof (cases "ss_less w ss e")
      case True
      have "\<forall>y\<in>set es. ss_less w ss y" using True lt by (blast intro: ss_less_trans)
      then have "\<forall>y\<in>set (e # es). entry_identity w y \<noteq> entry_identity w ss" using True ss_equiv_iff[of w]
        by auto
      then show ?thesis using False True by simp
    next
      case F2: False
      then have "entry_identity w e = entry_identity w ss" using False ss_equiv_iff by blast
      then show ?thesis using False F2 by simp
    qed
  qed
qed

lemma set_find_Some:
  "set_find w ss xs = Some i \<Longrightarrow> i < length xs \<and> entry_identity w (xs ! i) = entry_identity w ss"
proof (induction xs arbitrary: i)
  case Nil
  then show ?case by simp
next
  case (Cons e es)
  then show ?case using ss_equiv_iff[of w e ss]
    by (auto split: if_splits)
qed

lemma set_find_None_iff:
  "set_ok w xs \<Longrightarrow> set_find w ss xs = None \<longleftrightarrow> (\<forall>e\<in>set xs. entry_identity w e \<noteq> entry_identity w ss)"
proof (induction xs)
  case Nil
  then show ?case by simp
next
  case (Cons e es)
  have ok: "set_ok w es" and lt: "\<forall>y\<in>set es. ss_less w e y"
    using Cons.prems by (simp_all add: set_ok_def)
  show ?case
  proof (cases "ss_less w e ss")
    case True
    then have "entry_identity w e \<noteq> entry_identity w ss" using ss_equiv_iff by blast
    then show ?thesis using True Cons.IH[OF ok] by simp
  next
    case False
    show ?thesis
    proof (cases "ss_less w ss e")
      case True
      have "\<forall>y\<in>set es. ss_less w ss y" using True lt by (blast intro: ss_less_trans)
      then have "\<forall>y\<in>set (e # es). entry_identity w y \<noteq> entry_identity w ss" using True ss_equiv_iff[of w]
        by auto
      then show ?thesis using False True by simp
    next
      case F2: False
      then have "entry_identity w e = entry_identity w ss" using False ss_equiv_iff by blast
      then show ?thesis using False F2 by simp
    qed
  qed
qed

lemma set_find_singleton:
  "set_find w ss [e] \<noteq> None \<longleftrightarrow> entry_identity w e = entry_identity w ss"
  using ss_equiv_iff[of w e ss] by auto

lemma set_ok_distinct_keys: "set_ok w xs \<Longrightarrow> distinct (map (entry_identity w) xs)"
proof (induction xs)
  case Nil then show ?case by simp
next
  case (Cons e es)
  then show ?case using ss_equiv_iff[of w e] by (auto simp: set_ok_def)
qed

lemma set_erase_split:
  "i < length xs \<Longrightarrow> xs = take i xs @ xs ! i # drop (Suc i) xs"
  by (rule id_take_nth_drop)

lemma set_erase_ok: "set_ok w xs \<Longrightarrow> set_ok w (set_erase i xs)"
proof -
  assume ok: "set_ok w xs"
  have "sorted_wrt (ss_less w) (take i xs @ drop i xs)" using ok by (simp add: set_ok_def)
  then have a: "sorted_wrt (ss_less w) (take i xs)" and b: "sorted_wrt (ss_less w) (drop i xs)"
    and c: "\<forall>x\<in>set (take i xs). \<forall>y\<in>set (drop i xs). ss_less w x y"
    unfolding sorted_wrt_append by blast+
  have d: "drop (Suc i) xs = drop 1 (drop i xs)" by simp
  have "sorted_wrt (ss_less w) (drop (Suc i) xs)" unfolding d using b by (rule sorted_wrt_drop)
  moreover have "set (drop (Suc i) xs) \<subseteq> set (drop i xs)" unfolding d by (rule set_drop_subset)
  ultimately show ?thesis using a c unfolding set_ok_def set_erase_def sorted_wrt_append by blast
qed

section \<open>The operations keep the entries ordered\<close>

lemma add_absent:
  assumes "set_ok w (stripables st)" and "\<not> (debug_selection w \<and> s = None)"
    and "\<not> list_ex (same_identity w s c) (stripables st)"
  shows "\<exists>st'. add w st s c = Inr st' \<and>
           set (stripables st') =
             insert \<lparr>stripable = s, controllable = c, order = selection_order st\<rparr> (set (stripables st)) \<and>
           length (stripables st') = Suc (length (stripables st)) \<and>
           set_ok w (stripables st') \<and>
           list_ex (same_identity w s c) (stripables st') \<and>
           selection_order st' = selection_order st + 1 \<and>
           changes_sent st' = Suc (changes_sent st)"
proof -
  let ?ss = "\<lparr>stripable = s, controllable = c, order = selection_order st\<rparr>"
  obtain xs b where r: "set_insert w ?ss (stripables st) = (xs, b)"
    by (cases "set_insert w ?ss (stripables st)")
  have "\<forall>e\<in>set (stripables st). entry_identity w e \<noteq> entry_identity w ?ss"
    using assms(3) by (simp add: list_ex_iff same_identity_key[of w s c _ "selection_order st"])
  then have b: "b" using set_insert_inserted_iff[OF assms(1), of ?ss] r by simp
  obtain ys zs where sp: "stripables st = ys @ zs" "xs = ys @ ?ss # zs"
    using set_insert_split[of w ?ss "stripables st"] r b by auto
  have ok: "set_ok w xs" using set_insert_ok[OF assms(1), of ?ss] r by simp
  have ex: "list_ex (same_identity w s c) xs"
    using sp(2) by (simp add: list_ex_iff same_identity_def)
  show ?thesis using r b assms(2) sp ok ex
    by (auto simp: add_def send_selection_change_def)
qed

lemma add_present:
  assumes "set_ok w (stripables st)" and "\<not> (debug_selection w \<and> s = None)"
    and "list_ex (same_identity w s c) (stripables st)"
  shows "add w st s c = Inr (st\<lparr>selection_order := selection_order st + 1\<rparr>)"
proof -
  let ?ss = "\<lparr>stripable = s, controllable = c, order = selection_order st\<rparr>"
  obtain xs b where r: "set_insert w ?ss (stripables st) = (xs, b)"
    by (cases "set_insert w ?ss (stripables st)")
  have "\<not> (\<forall>e\<in>set (stripables st). entry_identity w e \<noteq> entry_identity w ?ss)"
    using assms(3) by (simp add: list_ex_iff same_identity_key[of w s c _ "selection_order st"])
  then have b: "\<not> b" using set_insert_inserted_iff[OF assms(1), of ?ss] r by simp
  show ?thesis using r b assms(2) by (auto simp: add_def)
qed

lemma add_set_ok:
  assumes "set_ok w (stripables st)" and "add w st s c = Inr st'"
  shows "set_ok w (stripables st')"
proof -
  let ?ss = "\<lparr>stripable = s, controllable = c, order = selection_order st\<rparr>"
  obtain xs b where r: "set_insert w ?ss (stripables st) = (xs, b)"
    by (cases "set_insert w ?ss (stripables st)")
  have "set_ok w xs" using set_insert_ok[OF assms(1), of ?ss] r by simp
  moreover have "stripables st' = xs \<or> stripables st' = stripables st"
    using assms(2) r by (auto simp: add_def Let_def send_selection_change_def split: if_splits)
  ultimately show ?thesis using assms(1) by auto
qed

lemma remove_set_ok:
  "set_ok w (stripables st) \<Longrightarrow> set_ok w (stripables (remove w st s c))"
  by (simp add: remove_def send_selection_change_def set_erase_ok split: option.splits)

lemma remove_no_identity:
  assumes "set_ok w (stripables st)"
  shows "\<not> list_ex (same_identity w s c) (stripables (remove w st s c))"
proof (cases "set_find w \<lparr>stripable = s, controllable = c, order = 0\<rparr> (stripables st)")
  case None
  then have "\<forall>e\<in>set (stripables st). entry_identity w e \<noteq> entry_identity w \<lparr>stripable = s, controllable = c, order = 0\<rparr>"
    using set_find_None_iff[OF assms] by simp
  then show ?thesis using None
    by (simp add: remove_def list_ex_iff same_identity_key[of w s c _ 0])
next
  case (Some i)
  let ?xs = "stripables st"
  have i: "i < length ?xs" and k: "entry_identity w (?xs ! i) = entry_identity w \<lparr>stripable = s, controllable = c, order = 0\<rparr>"
    using set_find_Some[OF Some] by simp_all
  have "distinct (map (entry_identity w) ?xs)" using assms by (rule set_ok_distinct_keys)
  then have "distinct (map (entry_identity w) (take i ?xs @ ?xs ! i # drop (Suc i) ?xs))"
    using set_erase_split[OF i] by simp
  then have "entry_identity w (?xs ! i) \<notin> entry_identity w ` set (take i ?xs @ drop (Suc i) ?xs)"
    by auto
  then have "\<forall>e\<in>set (take i ?xs @ drop (Suc i) ?xs). entry_identity w e \<noteq> entry_identity w (?xs ! i)"
    by (metis imageI)
  then have "\<forall>e\<in>set (set_erase i ?xs). entry_identity w e \<noteq> entry_identity w \<lparr>stripable = s, controllable = c, order = 0\<rparr>"
    unfolding set_erase_def k .
  then show ?thesis using Some
    by (simp add: remove_def send_selection_change_def list_ex_iff same_identity_key[of w s c _ 0])
qed

lemma set_selection_set_ok:
  "set_ok w (stripables st) \<Longrightarrow> set_selection w st s c = Inr st' \<Longrightarrow> set_ok w (stripables st')"
  by (auto simp: set_selection_def Let_def send_selection_change_def set_ok_def split: if_splits)

lemma clear_stripables_set_ok: "set_ok w (stripables (clear_stripables st))"
  by (simp add: clear_stripables_def send_selection_change_def set_ok_def)

lemma toggle_set_ok:
  "set_ok w (stripables st) \<Longrightarrow> toggle w st s c = Inr st' \<Longrightarrow> set_ok w (stripables st')"
  using remove_set_ok[of w st s c] add_set_ok[of w st s c st']
  by (auto simp: toggle_def split: if_splits)

lemma perform_set_ok:
  "set_ok w (stripables st) \<Longrightarrow> perform w st op = Inr st' \<Longrightarrow> set_ok w (stripables st')"
  by (cases op)
    (auto dest: toggle_set_ok add_set_ok set_selection_set_ok
      simp: remove_set_ok clear_stripables_set_ok)

lemma perform_no_trace:
  "\<not> debug_selection w \<Longrightarrow> \<exists>st'. perform w st op = Inr st'"
  by (cases op) (auto simp: toggle_def add_def set_selection_def Let_def split: prod.splits)

lemma run_set_ok:
  "set_ok w (stripables st) \<Longrightarrow> run st (map (Pair w) ops) = Inr st' \<Longrightarrow>
     set_ok w (stripables st')"
proof (induction ops arbitrary: st)
  case Nil
  then show ?case by simp
next
  case (Cons op ops)
  then show ?case
    by (cases "perform w st op") (auto dest: perform_set_ok)
qed

lemma run_no_trace:
  "\<not> debug_selection w \<Longrightarrow> \<exists>st'. run st (map (Pair w) ops) = Inr st'"
proof (induction ops arbitrary: st)
  case Nil
  then show ?case by simp
next
  case (Cons op ops)
  obtain st1 where "perform w st op = Inr st1" using perform_no_trace[OF Cons.prems] by blast
  then show ?case using Cons.IH[OF Cons.prems, of st1] by simp
qed

lemma add_null_stripable_traced:
  "debug_selection w \<Longrightarrow> add w st None c = Inl NullDereference"
  by (simp add: add_def Let_def split: prod.splits)

lemma set_selection_null_stripable_traced:
  "debug_selection w \<Longrightarrow> stripables st = [] \<Longrightarrow>
     set_selection w st None c = Inl NullDereference"
  by (simp add: set_selection_def)

section \<open>Order values stay fresh until the counter wraps\<close>

text \<open>
  Every operation takes at most one value from the counter, so a selection reached from
  the constructor by fewer than \<open>2 ^ 32\<close> operations has pairwise distinct order values.
\<close>

lemma unat_counter_step:
  "unat (n :: 32 word) < 2 ^ 32 - 1 \<Longrightarrow> unat (n + 1) = Suc (unat n)"
  by (simp add: unat_word_ariths)

lemma orders_fresh_counter:
  "orders_fresh st \<Longrightarrow> unat (selection_order st) < 2 ^ 32 - 1 \<Longrightarrow>
     orders_fresh (st\<lparr>selection_order := selection_order st + 1\<rparr>)"
  by (auto simp: orders_fresh_def unat_counter_step)

lemma orders_fresh_erase:
  "orders_fresh st \<Longrightarrow> i < length (stripables st) \<Longrightarrow>
     orders_fresh (st\<lparr>stripables := set_erase i (stripables st)\<rparr>)"
proof -
  assume f: "orders_fresh st" and i: "i < length (stripables st)"
  let ?xs = "stripables st"
  have "distinct (map order (take i ?xs @ ?xs ! i # drop (Suc i) ?xs))"
    using f set_erase_split[OF i] by (simp add: orders_fresh_def)
  then have "distinct (map order (set_erase i ?xs))" by (simp add: set_erase_def)
  moreover have "set (set_erase i ?xs) \<subseteq> set ?xs"
    unfolding set_erase_def using set_take_subset[of i ?xs] set_drop_subset[of "Suc i" ?xs] by auto
  ultimately show ?thesis using f by (auto simp: orders_fresh_def)
qed

lemma add_orders_fresh:
  assumes "orders_fresh st" and "unat (selection_order st) < 2 ^ 32 - 1"
    and "add w st s c = Inr st'"
  shows "orders_fresh st' \<and> selection_order st' = selection_order st + 1"
proof -
  let ?ss = "\<lparr>stripable = s, controllable = c, order = selection_order st\<rparr>"
  obtain xs b where r: "set_insert w ?ss (stripables st) = (xs, b)"
    by (cases "set_insert w ?ss (stripables st)")
  show ?thesis
  proof (cases b)
    case True
    then obtain ys zs where sp: "stripables st = ys @ zs" "xs = ys @ ?ss # zs"
      using set_insert_split[of w ?ss "stripables st"] r by auto
    have st': "st' = st\<lparr>selection_order := selection_order st + 1, stripables := xs,
                 changes_sent := Suc (changes_sent st)\<rparr>"
      using assms(3) r True by (auto simp: add_def Let_def send_selection_change_def split: if_splits)
    have "\<forall>e\<in>set (stripables st). order e \<noteq> selection_order st"
      using assms(1) by (auto simp: orders_fresh_def)
    then have "distinct (map order xs)" using assms(1) sp by (auto simp: orders_fresh_def)
    moreover have "\<forall>e\<in>set xs. unat (order e) < unat (selection_order st + 1)"
      using assms(1,2) sp by (auto simp: orders_fresh_def unat_counter_step ball_Un less_Suc_eq)
    ultimately show ?thesis by (simp add: st' orders_fresh_def)
  next
    case False
    then have "st' = st\<lparr>selection_order := selection_order st + 1\<rparr>"
      using assms(3) r by (auto simp: add_def Let_def split: if_splits)
    then show ?thesis using orders_fresh_counter[OF assms(1,2)] by simp
  qed
qed

lemma remove_orders_fresh:
  "orders_fresh st \<Longrightarrow>
     orders_fresh (remove w st s c) \<and> selection_order (remove w st s c) = selection_order st"
proof (cases "set_find w \<lparr>stripable = s, controllable = c, order = 0\<rparr> (stripables st)")
  case None
  assume "orders_fresh st"
  then show ?thesis using None by (simp add: remove_def)
next
  case (Some i)
  assume f: "orders_fresh st"
  have "i < length (stripables st)" using set_find_Some[OF Some] by simp
  then have "orders_fresh (st\<lparr>stripables := set_erase i (stripables st)\<rparr>)"
    using f by (rule orders_fresh_erase[rotated])
  then show ?thesis using Some
    by (simp add: remove_def send_selection_change_def orders_fresh_def)
qed

lemma set_selection_orders_fresh:
  assumes "orders_fresh st" and "unat (selection_order st) < 2 ^ 32 - 1"
    and "set_selection w st s c = Inr st'"
  shows "orders_fresh st' \<and> selection_order st' = selection_order st + 1"
proof (cases "length (stripables st) = 1 \<and>
    set_find w \<lparr>stripable = s, controllable = c, order = selection_order st\<rparr> (stripables st) \<noteq> None")
  case True
  then have "st' = st\<lparr>selection_order := selection_order st + 1\<rparr>"
    using assms(3) by (auto simp: set_selection_def Let_def)
  then show ?thesis using orders_fresh_counter[OF assms(1,2)] by simp
next
  case False
  then have "st' = st\<lparr>selection_order := selection_order st + 1,
      stripables := [\<lparr>stripable = s, controllable = c, order = selection_order st\<rparr>],
      changes_sent := Suc (changes_sent st)\<rparr>"
    using assms(3) by (auto simp: set_selection_def Let_def send_selection_change_def split: if_splits)
  then show ?thesis using assms(2) by (simp add: orders_fresh_def unat_counter_step)
qed

lemma clear_stripables_orders_fresh:
  "orders_fresh st \<Longrightarrow> orders_fresh (clear_stripables st) \<and>
     selection_order (clear_stripables st) = selection_order st"
  by (simp add: clear_stripables_def send_selection_change_def orders_fresh_def)

lemma perform_orders_fresh:
  assumes "orders_fresh st" and "unat (selection_order st) < 2 ^ 32 - 1"
    and "perform w st op = Inr st'"
  shows "orders_fresh st' \<and> unat (selection_order st') \<le> Suc (unat (selection_order st))"
proof (cases op)
  case (Toggle s c)
  show ?thesis
  proof (cases "(c \<noteq> None \<and> selected_controllable w st c) \<or> selected_stripable w st s")
    case True
    then have "st' = remove w st s c" using assms(3) Toggle by (auto simp: toggle_def)
    then show ?thesis using remove_orders_fresh[OF assms(1), of w s c] by simp
  next
    case False
    then have "add w st s c = Inr st'" using assms(3) Toggle by (auto simp: toggle_def)
    then show ?thesis using add_orders_fresh[OF assms(1,2)] assms(2)
      by (simp add: unat_counter_step)
  qed
next
  case (Add s c)
  then have "add w st s c = Inr st'" using assms(3) by simp
  then show ?thesis using add_orders_fresh[OF assms(1,2)] assms(2)
    by (simp add: unat_counter_step)
next
  case (Remove s c)
  then have "st' = remove w st s c" using assms(3) by simp
  then show ?thesis using remove_orders_fresh[OF assms(1), of w s c] by simp
next
  case (Set s c)
  then have "set_selection w st s c = Inr st'" using assms(3) by simp
  then show ?thesis using set_selection_orders_fresh[OF assms(1,2)] assms(2)
    by (simp add: unat_counter_step)
next
  case ClearStripables
  then have "st' = clear_stripables st" using assms(3) by simp
  then show ?thesis using clear_stripables_orders_fresh[OF assms(1)] by simp
qed

lemma run_orders_fresh:
  "orders_fresh st \<Longrightarrow> unat (selection_order st) + length tr < 2 ^ 32 \<Longrightarrow>
     run st tr = Inr st' \<Longrightarrow> orders_fresh st'"
proof (induction tr arbitrary: st)
  case Nil
  then show ?case by simp
next
  case (Cons x tr)
  obtain w op where x: "x = (w, op)" by (cases x)
  obtain st1 where p: "perform w st op = Inr st1" and r: "run st1 tr = Inr st'"
    using Cons.prems(3) x by (cases "perform w st op") auto
  have b: "unat (selection_order st) < 2 ^ 32 - 1" using Cons.prems(2) by simp
  have "orders_fresh st1" and "unat (selection_order st1) \<le> Suc (unat (selection_order st))"
    using perform_orders_fresh[OF Cons.prems(1) b p] by simp_all
  moreover then have "unat (selection_order st1) + length tr < 2 ^ 32"
    using Cons.prems(2) by simp
  ultimately show ?case using Cons.IH r by blast
qed

lemma orders_distinct_reachable:
  "length tr < 2 ^ 32 \<Longrightarrow> run CoreSelection_init tr = Inr st \<Longrightarrow>
     distinct (map order (stripables st))"
  using run_orders_fresh[of CoreSelection_init tr st]
  by (simp add: orders_fresh_def CoreSelection_init_def)

lemma live_entries_eq: "live_entries w xs = map (snapshot w) (filter (is_live w) xs)"
  by (induction xs) (simp_all add: is_live_def snapshot_def Let_def)

lemma sint_inj: "inj (sint :: 32 word \<Rightarrow> int)"
  by (rule injI) (rule signed_word_eqI)

lemma distinct_live_orders:
  "distinct (map order xs) \<Longrightarrow> distinct (map (\<lambda>e. sint (sc_order e)) (live_entries w xs))"
proof -
  assume d: "distinct (map order xs)"
  have e: "map (\<lambda>e. sint (sc_order e)) (live_entries w xs)
        = map sint (map order (filter (is_live w) xs))"
    by (simp add: live_entries_eq snapshot_def comp_def)
  have "distinct (map order (filter (is_live w) xs))"
    using d by (rule distinct_map_filter)
  moreover have "inj_on (sint :: 32 word \<Rightarrow> int) (set (map order (filter (is_live w) xs)))"
    using sint_inj by (rule inj_on_subset) simp
  ultimately have "distinct (map sint (map order (filter (is_live w) xs)))"
    unfolding distinct_map[of sint] by blast
  then show ?thesis unfolding e .
qed

lemma add_counter:
  "add w st s c = Inr st' \<Longrightarrow> selection_order st' = selection_order st + 1"
  by (auto simp: add_def Let_def send_selection_change_def split: prod.splits if_splits)

lemma orders_fresh_unused:
  "orders_fresh st \<Longrightarrow> \<forall>e\<in>set (stripables st). order e \<noteq> selection_order st"
  by (auto simp: orders_fresh_def)

section \<open>Concrete runs\<close>

lemma selection_S1_S2_reached:
  "run CoreSelection_init
     [(world_all_alive, Add (Some 1) None), (world_all_alive, Add (Some 2) None)]
   = Inr selection_S1_S2"
  by (simp add: add_def CoreSelection_init_def selection_S1_S2_def send_selection_change_def
      world_all_alive_def ss_less_def lock_def)

lemma selection_out_of_order_reached:
  "run CoreSelection_init
     [(world_all_alive, Add (Some 2) None), (world_all_alive, Add (Some 1) None)]
   = Inr selection_out_of_order"
  by (simp add: add_def CoreSelection_init_def selection_out_of_order_def
      send_selection_change_def world_all_alive_def ss_less_def lock_def)

lemma rps_view_7_reached:
  "rps_add world_all_alive own_stripable rps_init 7 = Inr rps_view_7"
  by (simp add: rps_add_def rps_init_def rps_view_7_def own_stripable_def add_def
      CoreSelection_init_def send_selection_change_def)

subsection \<open>Expiry under the container\<close>

text \<open>
  The comparator order is relative to the world: when an object expires, the identity of
  the entries that refer to it changes under the container, and the entries need no
  longer be in comparator order. The container is then outside its contract. The ordered
  search of this model (like the descent of a search tree) can then miss an entry of the
  same identity: three controls of one stripable are selected, the third expires, and
  adding the stripable itself inserts an entry with the identity the third entry now has.
\<close>

lemma selection_three_controls_reached:
  "run CoreSelection_init
     [(world_all_alive, Add (Some 1) (Some 11)), (world_all_alive, Add (Some 1) (Some 12)),
      (world_all_alive, Add (Some 1) (Some 13))]
     = Inr selection_three_controls"
  by (simp add: add_def CoreSelection_init_def selection_three_controls_def
      send_selection_change_def world_all_alive_def ss_less_def lock_def)

lemma add_on_disordered_entries:
  "distinct (map (entry_identity world_13_expired) (stripables selection_three_controls)) \<and>
   \<not> set_ok world_13_expired (stripables selection_three_controls) \<and>
   add world_13_expired selection_three_controls (Some 1) None =
     Inr \<lparr>stripables = [\<lparr>stripable = Some 1, controllable = None, order = 3\<rparr>,
                         \<lparr>stripable = Some 1, controllable = Some 11, order = 0\<rparr>,
                         \<lparr>stripable = Some 1, controllable = Some 12, order = 1\<rparr>,
                         \<lparr>stripable = Some 1, controllable = Some 13, order = 2\<rparr>],
          selection_order = 4, changes_sent = 4\<rparr> \<and>
   entry_identity world_13_expired \<lparr>stripable = Some 1, controllable = None, order = 3\<rparr> =
   entry_identity world_13_expired \<lparr>stripable = Some 1, controllable = Some 13, order = 2\<rparr>"
  by (simp add: add_def selection_three_controls_def send_selection_change_def
      world_13_expired_def ss_less_def lock_def entry_identity_def set_ok_def)

subsection \<open>The order counter wraps\<close>

text \<open>
  \<open>add\<close> takes a value from the counter also when it inserts nothing, and the atomic
  addition wraps at \<open>2 ^ 32\<close>: after that many calls a new entry gets an order value
  that an older entry still holds.
\<close>

lemma run_append:
  "run st (xs @ ys) = (case run st xs of Inl f \<Rightarrow> Inl f | Inr st' \<Rightarrow> run st' ys)"
  by (induction xs arbitrary: st) (auto split: sum.splits)

lemma add_S1_again:
  "stripables st = [\<lparr>stripable = Some 1, controllable = None, order = 0\<rparr>] \<Longrightarrow>
     add world_all_alive st (Some 1) None = Inr (st\<lparr>selection_order := selection_order st + 1\<rparr>)"
  by (simp add: add_def ss_less_def lock_def world_all_alive_def)

lemma run_add_S1_again:
  "stripables st = [\<lparr>stripable = Some 1, controllable = None, order = 0\<rparr>] \<Longrightarrow>
     run st (replicate n (world_all_alive, Add (Some 1) None)) =
       Inr (st\<lparr>selection_order := selection_order st + of_nat n\<rparr>)"
proof (induction n arbitrary: st)
  case 0
  then show ?case by simp
next
  case (Suc n)
  let ?st1 = "st\<lparr>selection_order := selection_order st + 1\<rparr>"
  have "run ?st1 (replicate n (world_all_alive, Add (Some 1) None)) =
      Inr (?st1\<lparr>selection_order := selection_order ?st1 + of_nat n\<rparr>)"
    by (rule Suc.IH) (simp add: Suc.prems)
  then show ?case using add_S1_again[OF Suc.prems] by (simp add: add.assoc)
qed

lemma counter_wraps:
  "run CoreSelection_init
     (replicate (2 ^ 32) (world_all_alive, Add (Some 1) None) @
      [(world_all_alive, Add (Some 2) None)])
   = Inr selection_equal_orders"
proof -
  let ?x = "(world_all_alive, Add (Some 1) None)"
  let ?st1 = "\<lparr>stripables = [\<lparr>stripable = Some 1, controllable = None, order = 0\<rparr>],
                selection_order = 1, changes_sent = 1\<rparr>"
  have r: "replicate (2 ^ 32) ?x = ?x # replicate (2 ^ 32 - 1) ?x"
    by (simp flip: replicate_Suc)
  have a: "add world_all_alive CoreSelection_init (Some 1) None = Inr ?st1"
    by (simp add: add_def CoreSelection_init_def send_selection_change_def)
  have "run ?st1 (replicate (2 ^ 32 - 1) ?x) =
      Inr (?st1\<lparr>selection_order := selection_order ?st1 + of_nat (2 ^ 32 - 1)\<rparr>)"
    by (rule run_add_S1_again) simp
  then have b: "run ?st1 (replicate (2 ^ 32 - 1) ?x) =
      Inr \<lparr>stripables = [\<lparr>stripable = Some 1, controllable = None, order = 0\<rparr>],
           selection_order = 0, changes_sent = 1\<rparr>"
    by simp
  have c: "add world_all_alive
      \<lparr>stripables = [\<lparr>stripable = Some 1, controllable = None, order = 0\<rparr>],
       selection_order = 0, changes_sent = 1\<rparr> (Some 2) None = Inr selection_equal_orders"
    by (simp add: add_def selection_equal_orders_def send_selection_change_def ss_less_def
        lock_def world_all_alive_def)
  show ?thesis unfolding run_append r using a b c by simp
qed

lemma add_twice:
  assumes "set_ok w (stripables st)" and "\<not> (debug_selection w \<and> s = None)"
  shows "\<exists>st1 st2. add w st s c = Inr st1 \<and> add w st1 s c = Inr st2 \<and>
           (if list_ex (same_identity w s c) (stripables st)
            then stripables st1 = stripables st \<and> changes_sent st1 = changes_sent st
            else set (stripables st1) =
                   insert \<lparr>stripable = s, controllable = c, order = selection_order st\<rparr>
                     (set (stripables st)) \<and>
                 length (stripables st1) = Suc (length (stripables st)) \<and>
                 changes_sent st1 = Suc (changes_sent st) \<and>
                 changes_sent st2 = Suc (changes_sent st)) \<and>
           stripables st2 = stripables st1 \<and> changes_sent st2 = changes_sent st1"
proof (cases "list_ex (same_identity w s c) (stripables st)")
  case True
  let ?st1 = "st\<lparr>selection_order := selection_order st + 1\<rparr>"
  have a1: "add w st s c = Inr ?st1" using add_present[OF assms True] .
  have "add w ?st1 s c = Inr (?st1\<lparr>selection_order := selection_order ?st1 + 1\<rparr>)"
    by (rule add_present) (use assms True in simp_all)
  then show ?thesis using a1 True by simp
next
  case False
  obtain st1 where s1: "add w st s c = Inr st1"
     "set (stripables st1) =
        insert \<lparr>stripable = s, controllable = c, order = selection_order st\<rparr> (set (stripables st))"
     "length (stripables st1) = Suc (length (stripables st))"
     "set_ok w (stripables st1)" "list_ex (same_identity w s c) (stripables st1)"
     "changes_sent st1 = Suc (changes_sent st)"
    using add_absent[OF assms False] by blast
  have "add w st1 s c = Inr (st1\<lparr>selection_order := selection_order st1 + 1\<rparr>)"
    using add_present[OF s1(4) assms(2) s1(5)] .
  then show ?thesis using s1 False by simp
qed

section \<open>Properties of CoreSelection\<close>

text \<open>
  C1, as amended. \<open>selected (stripable)\<close> holds exactly when the argument is not null and
  some entry has a stripable that locks to the argument and a controllable reference that
  was never set. An entry whose controllable was set and has expired since is skipped,
  like one whose controllable is alive: \<open>weak_ptr_is_not_null\<close> tells an expired
  reference from an empty one.
\<close>

theorem C1_selected_stripable:
  "selected_stripable w st s \<longleftrightarrow>
     s \<noteq> None \<and>
     (\<exists>e\<in>set (stripables st). lock w (stripable e) = s \<and> controllable e = None)"
  by (rule selected_stripable_iff)

text \<open>
  C1 as stated, with "no live controllable component", fails: after \<open>add (S1, C2)\<close> and
  the expiry of \<open>C2\<close>, the entry's stripable is alive and matches, its controllable locks
  to null, and \<open>selected (S1)\<close> is false.
\<close>

theorem C1_counterexample:
  "add world_all_alive CoreSelection_init (Some 1) (Some 2) = Inr selection_S1_C2 \<and>
   \<not> (selected_stripable world_only_1_alive selection_S1_C2 (Some 1) \<longleftrightarrow>
      (\<exists>e\<in>set (stripables selection_S1_C2).
         lock world_only_1_alive (stripable e) = Some 1 \<and>
         lock world_only_1_alive (controllable e) = None))"
  by (simp add: add_def CoreSelection_init_def send_selection_change_def world_all_alive_def
      selected_stripable_def selection_S1_C2_def world_only_1_alive_def lock_def
      weak_ptr_is_not_null_def)

theorem C1_selected_stripable_witness:
  "selected_stripable world_all_alive
     \<lparr>stripables = [\<lparr>stripable = Some 1, controllable = None, order = 0\<rparr>],
      selection_order = 1, changes_sent = 1\<rparr> (Some 1)"
  using C1_selected_stripable [of world_all_alive
     "\<lparr>stripables = [\<lparr>stripable = Some 1, controllable = None, order = 0\<rparr>],
      selection_order = 1, changes_sent = 1\<rparr>" "Some 1"]
  by (simp add: lock_def world_all_alive_def)

text \<open>
  C3. \<open>toggle (s, c)\<close> is \<open>remove (s, c)\<close> when \<open>c\<close> is not null and selected, or when
  \<open>s\<close> is selected, and \<open>add (s, c)\<close> in every other case. On the empty selection,
  toggling a live stripable selects it and toggling it again deselects it.
\<close>

theorem C3_toggle:
  "toggle w st s c =
     (if (c \<noteq> None \<and> selected_controllable w st c) \<or> selected_stripable w st s
      then Inr (remove w st s c) else add w st s c) \<and>
   (alive w a \<longrightarrow>
     (\<exists>st1 st2. toggle w CoreSelection_init (Some a) None = Inr st1 \<and>
        selected_stripable w st1 (Some a) \<and>
        toggle w st1 (Some a) None = Inr st2 \<and>
        \<not> selected_stripable w st2 (Some a) \<and> stripables st2 = []))"
proof (intro conjI impI)
  show "toggle w st s c =
     (if (c \<noteq> None \<and> selected_controllable w st c) \<or> selected_stripable w st s
      then Inr (remove w st s c) else add w st s c)"
    by (simp add: toggle_def)
next
  assume a: "alive w a"
  let ?e = "\<lparr>stripable = Some a, controllable = None, order = 0\<rparr>"
  let ?st1 = "\<lparr>stripables = [?e], selection_order = 1, changes_sent = 1\<rparr>"
  let ?st2 = "\<lparr>stripables = [], selection_order = 1, changes_sent = 2\<rparr>"
  have t1: "toggle w CoreSelection_init (Some a) None = Inr ?st1"
    by (simp add: toggle_def selected_stripable_def CoreSelection_init_def add_def
        send_selection_change_def)
  have s1: "selected_stripable w ?st1 (Some a)"
    using a by (simp add: selected_stripable_def weak_ptr_is_not_null_def lock_def)
  have f: "set_find w \<lparr>stripable = Some a, controllable = None, order = 0\<rparr> [?e] = Some 0"
    by (simp add: ss_less_irrefl)
  have t2: "toggle w ?st1 (Some a) None = Inr ?st2"
    using s1 f by (simp add: toggle_def remove_def send_selection_change_def set_erase_def)
  have s2: "\<not> selected_stripable w ?st2 (Some a)"
    by (simp add: selected_stripable_def)
  show "\<exists>st1 st2. toggle w CoreSelection_init (Some a) None = Inr st1 \<and>
        selected_stripable w st1 (Some a) \<and>
        toggle w st1 (Some a) None = Inr st2 \<and>
        \<not> selected_stripable w st2 (Some a) \<and> stripables st2 = []"
    using t1 s1 t2 s2 by (intro exI[of _ ?st1] exI[of _ ?st2]) simp
qed

theorem C3_toggle_witness:
  "alive world_all_alive 1 \<and>
   (\<exists>st1 st2. toggle world_all_alive CoreSelection_init (Some 1) None = Inr st1 \<and>
        selected_stripable world_all_alive st1 (Some 1) \<and>
        toggle world_all_alive st1 (Some 1) None = Inr st2 \<and>
        \<not> selected_stripable world_all_alive st2 (Some 1) \<and> stripables st2 = [])"
  using C3_toggle [of world_all_alive CoreSelection_init None None 1]
  by (simp add: world_all_alive_def)

text \<open>
  C4. When the selection is the single entry with the identity of \<open>(s, c)\<close>, \<open>set (s, c)\<close>
  returns without a fault, leaves the entries (and so the entry's order value) as they
  are and sends no notification. The order counter has been advanced by then: the value
  taken for the call is not used.
\<close>

theorem C4_set_already_selected:
  assumes "stripables st = [e]"
    and "lock w (stripable e) = lock w s"
    and "lock w (controllable e) = lock w c"
  shows "\<exists>st'. set_selection w st s c = Inr st' \<and>
           stripables st' = stripables st \<and>
           changes_sent st' = changes_sent st \<and>
           selection_order st' = selection_order st + 1"
proof -
  let ?ss = "\<lparr>stripable = s, controllable = c, order = selection_order st\<rparr>"
  have "entry_identity w e = entry_identity w ?ss" using assms by (simp add: entry_identity_def)
  then have "set_find w ?ss [e] \<noteq> None" by (simp only: set_find_singleton)
  then show ?thesis using assms(1) by (simp add: set_selection_def)
qed

theorem C4_set_already_selected_witness:
  "\<exists>st'. set_selection world_all_alive
            \<lparr>stripables = [\<lparr>stripable = Some 1, controllable = None, order = 0\<rparr>],
             selection_order = 1, changes_sent = 1\<rparr> (Some 1) None = Inr st' \<and>
         stripables st' = [\<lparr>stripable = Some 1, controllable = None, order = 0\<rparr>] \<and>
         changes_sent st' = 1 \<and> selection_order st' = 2"
  using C4_set_already_selected [of
      "\<lparr>stripables = [\<lparr>stripable = Some 1, controllable = None, order = 0\<rparr>],
        selection_order = 1, changes_sent = 1\<rparr>"
      "\<lparr>stripable = Some 1, controllable = None, order = 0\<rparr>"
      world_all_alive "Some 1" None]
  by simp

text \<open>
  C5, as amended. On entries in comparator order, \<open>add (s, c)\<close> takes the counter's
  value and advances the counter by one, whether it inserts or not. When no entry has the
  identity of \<open>(s, c)\<close> it inserts one entry with that value as its order and sends one
  notification; when one has, the entries and the notification count stay as they are.
  A second \<open>add (s, c)\<close> right after the first changes neither, so two calls give the
  membership of one call, with exactly one notification when the first call inserted and
  none when it did not. While the order values are fresh the value taken is held by no
  entry. The trace of \<open>add\<close> dereferences \<open>s\<close>; that case is left to C9.
\<close>

theorem C5_add:
  assumes "set_ok w (stripables st)" and "\<not> (debug_selection w \<and> s = None)"
  shows "\<exists>st1 st2. add w st s c = Inr st1 \<and> add w st1 s c = Inr st2 \<and>
           (if list_ex (same_identity w s c) (stripables st)
            then stripables st1 = stripables st \<and> changes_sent st1 = changes_sent st
            else set (stripables st1) =
                   insert \<lparr>stripable = s, controllable = c, order = selection_order st\<rparr>
                     (set (stripables st)) \<and>
                 length (stripables st1) = Suc (length (stripables st)) \<and>
                 changes_sent st1 = Suc (changes_sent st) \<and>
                 changes_sent st2 = Suc (changes_sent st)) \<and>
           stripables st2 = stripables st1 \<and> changes_sent st2 = changes_sent st1 \<and>
           selection_order st1 = selection_order st + 1 \<and>
           selection_order st2 = selection_order st + 2 \<and>
           (orders_fresh st \<longrightarrow>
              (\<forall>e\<in>set (stripables st). order e \<noteq> selection_order st))"
proof -
  obtain st1 st2 where a: "add w st s c = Inr st1" "add w st1 s c = Inr st2"
    and b: "(if list_ex (same_identity w s c) (stripables st)
            then stripables st1 = stripables st \<and> changes_sent st1 = changes_sent st
            else set (stripables st1) =
                   insert \<lparr>stripable = s, controllable = c, order = selection_order st\<rparr>
                     (set (stripables st)) \<and>
                 length (stripables st1) = Suc (length (stripables st)) \<and>
                 changes_sent st1 = Suc (changes_sent st) \<and>
                 changes_sent st2 = Suc (changes_sent st))"
    and c: "stripables st2 = stripables st1" "changes_sent st2 = changes_sent st1"
    using add_twice[OF assms, of c] by blast
  have o1: "selection_order st1 = selection_order st + 1" using a(1) by (rule add_counter)
  have "selection_order st2 = selection_order st1 + 1" using a(2) by (rule add_counter)
  then have o2: "selection_order st2 = selection_order st + 2" using o1 by simp
  show ?thesis using a b c o1 o2 orders_fresh_unused[of st] by blast
qed

text \<open>
  C5 as stated, for every selection, fails after an expiry: three controls of one
  stripable are selected and the third expires, so that its entry has the identity of the
  stripable alone; \<open>add\<close> of the stripable still inserts an entry and sends a
  notification. (A red-black tree of the three entries has the second at its root; the
  descent for the new entry turns left twice, as the walk stops at the first entry.)
\<close>

theorem C5_counterexample:
  "run CoreSelection_init
     [(world_all_alive, Add (Some 1) (Some 11)), (world_all_alive, Add (Some 1) (Some 12)),
      (world_all_alive, Add (Some 1) (Some 13))]
     = Inr selection_three_controls \<and>
   list_ex (same_identity world_13_expired (Some 1) None) (stripables selection_three_controls) \<and>
   add world_13_expired selection_three_controls (Some 1) None
     = Inr selection_three_controls_and_S1 \<and>
   stripables selection_three_controls_and_S1 \<noteq> stripables selection_three_controls \<and>
   changes_sent selection_three_controls_and_S1 = Suc (changes_sent selection_three_controls)"
  using selection_three_controls_reached
  by (simp add: add_def selection_three_controls_def selection_three_controls_and_S1_def
      send_selection_change_def world_13_expired_def ss_less_def lock_def same_identity_def)

theorem C5_add_witness:
  "set_ok world_all_alive (stripables CoreSelection_init) \<and>
   \<not> (debug_selection world_all_alive \<and> Some (1::nat) = None) \<and>
   (\<exists>st1 st2. add world_all_alive CoreSelection_init (Some 1) None = Inr st1 \<and>
      add world_all_alive st1 (Some 1) None = Inr st2 \<and>
      set (stripables st1) = {\<lparr>stripable = Some 1, controllable = None, order = 0\<rparr>} \<and>
      length (stripables st1) = 1 \<and> changes_sent st1 = 1 \<and> changes_sent st2 = 1 \<and>
      stripables st2 = stripables st1 \<and> changes_sent st2 = changes_sent st1 \<and>
      selection_order st1 = 1 \<and> selection_order st2 = 2)"
  using C5_add [of world_all_alive CoreSelection_init "Some 1" None]
  by (simp add: set_ok_def CoreSelection_init_def world_all_alive_def)

text \<open>
  C6. Unless the selection already is the single entry with the identity of \<open>(s, c)\<close>,
  \<open>set (s, c)\<close> leaves exactly the entry \<open>(s, c)\<close> with the counter value taken for the call
  as its order, and sends one notification. After \<open>set (S1, null)\<close> and
  \<open>set (S2, null)\<close>, from any selection, \<open>get_stripables\<close> returns one element, whose
  stripable is \<open>S2\<close>. The trace of \<open>set\<close> dereferences \<open>s\<close>; that case is left to C9.
\<close>

theorem C6_set_replaces:
  "(\<not> (\<exists>e. stripables st = [e] \<and> same_identity w s c e) \<and>
    \<not> (debug_selection w \<and> s = None) \<longrightarrow>
      set_selection w st s c =
        Inr \<lparr>stripables = [\<lparr>stripable = s, controllable = c, order = selection_order st\<rparr>],
             selection_order = selection_order st + 1,
             changes_sent = Suc (changes_sent st)\<rparr>) \<and>
   (alive w b \<longrightarrow>
      (\<exists>st1 st2. set_selection w st (Some a) None = Inr st1 \<and>
         set_selection w st1 (Some b) None = Inr st2 \<and>
         map sc_stripable (get_stripables w st2 []) = [Some b]))"
proof (intro conjI impI)
  let ?ss = "\<lparr>stripable = s, controllable = c, order = selection_order st\<rparr>"
  assume h: "\<not> (\<exists>e. stripables st = [e] \<and> same_identity w s c e) \<and>
    \<not> (debug_selection w \<and> s = None)"
  have "\<not> (length (stripables st) = 1 \<and> set_find w ?ss (stripables st) \<noteq> None)"
  proof
    assume l: "length (stripables st) = 1 \<and> set_find w ?ss (stripables st) \<noteq> None"
    then obtain e where e: "stripables st = [e]"
      by (cases "stripables st") auto
    then have "entry_identity w e = entry_identity w ?ss" using l set_find_singleton[of w ?ss e] by simp
    then have "same_identity w s c e" by (simp add: same_identity_key[of w s c e "selection_order st"])
    then show False using h e by blast
  qed
  then show "set_selection w st s c =
        Inr \<lparr>stripables = [?ss], selection_order = selection_order st + 1,
             changes_sent = Suc (changes_sent st)\<rparr>"
    using h by (auto simp: set_selection_def send_selection_change_def Let_def)
next
  assume b: "alive w b"
  obtain st1 where s1: "set_selection w st (Some a) None = Inr st1"
    by (cases "set_selection w st (Some a) None") (auto simp: set_selection_def Let_def split: if_splits)
  obtain st2 where s2: "set_selection w st1 (Some b) None = Inr st2"
    by (cases "set_selection w st1 (Some b) None") (auto simp: set_selection_def Let_def split: if_splits)
  let ?ss = "\<lparr>stripable = Some b, controllable = None, order = selection_order st1\<rparr>"
  have "\<exists>e. stripables st2 = [e] \<and> entry_identity w e = entry_identity w ?ss"
  proof (cases "length (stripables st1) = 1 \<and> set_find w ?ss (stripables st1) \<noteq> None")
    case True
    then obtain e where e: "stripables st1 = [e]" by (cases "stripables st1") auto
    then have "entry_identity w e = entry_identity w ?ss" using True set_find_singleton[of w ?ss e] by simp
    moreover have "stripables st2 = stripables st1" using s2 True
      by (auto simp: set_selection_def Let_def)
    ultimately show ?thesis using e by simp
  next
    case False
    then have "stripables st2 = [?ss]" using s2
      by (auto simp: set_selection_def send_selection_change_def Let_def)
    then show ?thesis by simp
  qed
  then obtain e where e: "stripables st2 = [e]" "lock w (stripable e) = Some b"
      "lock w (controllable e) = None"
    using b by (auto simp: entry_identity_def lock_def)
  have "map sc_stripable (get_stripables w st2 []) = [Some b]"
    using e by (simp add: get_stripables_def)
  then show "\<exists>st1 st2. set_selection w st (Some a) None = Inr st1 \<and>
         set_selection w st1 (Some b) None = Inr st2 \<and>
         map sc_stripable (get_stripables w st2 []) = [Some b]"
    using s1 s2 by (intro exI[of _ st1] exI[of _ st2]) simp
qed

theorem C6_set_replaces_witness:
  "set_selection world_all_alive CoreSelection_init (Some 1) None =
     Inr \<lparr>stripables = [\<lparr>stripable = Some 1, controllable = None,
                          order = selection_order CoreSelection_init\<rparr>],
          selection_order = selection_order CoreSelection_init + 1,
          changes_sent = Suc (changes_sent CoreSelection_init)\<rparr> \<and>
   (\<exists>st1 st2. set_selection world_all_alive CoreSelection_init (Some 1) None = Inr st1 \<and>
      set_selection world_all_alive st1 (Some 2) None = Inr st2 \<and>
      map sc_stripable (get_stripables world_all_alive st2 []) = [Some 2])"
proof -
  note t = C6_set_replaces [of CoreSelection_init world_all_alive "Some 1" None 2 1]
  have h1: "\<not> (\<exists>e. stripables CoreSelection_init = [e] \<and>
                same_identity world_all_alive (Some 1) None e) \<and>
            \<not> (debug_selection world_all_alive \<and> Some (1::nat) = None)"
    by (simp add: CoreSelection_init_def)
  have h2: "alive world_all_alive 2" by (simp add: world_all_alive_def)
  show ?thesis
    by (intro conjI conjunct1[OF t, THEN mp, OF h1] conjunct2[OF t, THEN mp, OF h2])
qed

text \<open>
  C7, as amended. Called with an empty vector, \<open>get_stripables\<close> returns the snapshots
  of exactly the entries with a live stripable or a live controllable, each as often as
  it is stored, in ascending order of their order values (compared as signed integers);
  no element has both pointers null. The order is strict whenever the stored order values
  are pairwise distinct, and so in every selection reached from the constructor by fewer
  than \<open>2 ^ 32\<close> operations.
\<close>

theorem C7_get_stripables:
  "mset (get_stripables w st []) = mset (map (snapshot w) (filter (is_live w) (stripables st))) \<and>
   sorted (map (\<lambda>e. sint (sc_order e)) (get_stripables w st [])) \<and>
   (\<forall>e\<in>set (get_stripables w st []). sc_stripable e \<noteq> None \<or> sc_controllable e \<noteq> None) \<and>
   (distinct (map order (stripables st)) \<longrightarrow>
      sorted_wrt (<) (map (\<lambda>e. sint (sc_order e)) (get_stripables w st []))) \<and>
   (length tr < 2 ^ 32 \<and> run CoreSelection_init tr = Inr st \<longrightarrow>
      sorted_wrt (<) (map (\<lambda>e. sint (sc_order e)) (get_stripables w st [])))"
proof -
  have m: "mset (get_stripables w st []) =
      mset (map (snapshot w) (filter (is_live w) (stripables st)))"
    by (simp add: get_stripables_def live_entries_eq)
  have s: "sorted (map (\<lambda>e. sint (sc_order e)) (get_stripables w st []))"
    by (simp add: get_stripables_def)
  have "set (get_stripables w st []) = snapshot w ` {x \<in> set (stripables st). is_live w x}"
    by (simp add: get_stripables_def live_entries_eq)
  then have l: "\<forall>e\<in>set (get_stripables w st []).
      sc_stripable e \<noteq> None \<or> sc_controllable e \<noteq> None"
    by (auto simp: snapshot_def is_live_def)
  have strict: "sorted_wrt (<) (map (\<lambda>e. sint (sc_order e)) (get_stripables w st []))"
    if d: "distinct (map order (stripables st))"
  proof -
    have "mset (map (\<lambda>e. sint (sc_order e)) (get_stripables w st []))
          = mset (map (\<lambda>e. sint (sc_order e)) (live_entries w (stripables st)))"
      by (simp add: get_stripables_def)
    then have "distinct (map (\<lambda>e. sint (sc_order e)) (get_stripables w st []))"
      using distinct_live_orders[OF d, of w] by (metis mset_eq_imp_distinct_iff)
    then show ?thesis using s by (simp add: strict_sorted_iff)
  qed
  have reach: "sorted_wrt (<) (map (\<lambda>e. sint (sc_order e)) (get_stripables w st []))"
    if "length tr < 2 ^ 32 \<and> run CoreSelection_init tr = Inr st"
    using that orders_distinct_reachable[of tr st] strict by blast
  show ?thesis using m s l strict reach by blast
qed

text \<open>
  C7 as stated, with a strict order in every state, fails once the counter has wrapped:
  after \<open>2 ^ 32\<close> calls of \<open>add (S1, null)\<close>, of which the first inserts, \<open>add (S2, null)\<close>
  stores \<open>S2\<close> with the order value of \<open>S1\<close>.
\<close>

theorem C7_counterexample:
  "run CoreSelection_init
     (replicate (2 ^ 32) (world_all_alive, Add (Some 1) None) @
      [(world_all_alive, Add (Some 2) None)])
   = Inr selection_equal_orders \<and>
   \<not> sorted_wrt (<) (map (\<lambda>e. sint (sc_order e))
       (get_stripables world_all_alive selection_equal_orders []))"
  using counter_wraps
  by (simp add: selection_equal_orders_def get_stripables_def lock_def world_all_alive_def)

theorem C7_get_stripables_witness:
  "distinct (map order (stripables selection_out_of_order)) \<and>
   run CoreSelection_init
     [(world_all_alive, Add (Some 2) None), (world_all_alive, Add (Some 1) None)]
     = Inr selection_out_of_order \<and>
   map sc_stripable (get_stripables world_all_alive selection_out_of_order []) = [Some 2, Some 1] \<and>
   sorted_wrt (<) (map (\<lambda>e. sint (sc_order e))
     (get_stripables world_all_alive selection_out_of_order []))"
  using C7_get_stripables [of world_all_alive selection_out_of_order
      "[(world_all_alive, Add (Some 2) None), (world_all_alive, Add (Some 1) None)]"]
    selection_out_of_order_reached
  by (simp add: selection_out_of_order_def get_stripables_def lock_def world_all_alive_def)

text \<open>
  C8, as amended. Every sequence of \<open>toggle\<close>, \<open>add\<close>, \<open>remove\<close>, \<open>set\<close> and
  \<open>clear_stripables\<close> calls made in one world (no object expires during the sequence),
  from ordered entries and in particular from the constructor's empty selection, ends
  with at most one entry per identity; with the trace off no call of the sequence faults.
\<close>

theorem C8_one_entry_per_identity:
  "(set_ok w (stripables st) \<and> run st (map (Pair w) ops) = Inr st' \<longrightarrow>
      distinct (map (entry_identity w) (stripables st'))) \<and>
   (run CoreSelection_init (map (Pair w) ops) = Inr st' \<longrightarrow>
      distinct (map (entry_identity w) (stripables st'))) \<and>
   (\<not> debug_selection w \<longrightarrow> (\<exists>st''. run st (map (Pair w) ops) = Inr st''))"
proof (intro conjI impI)
  assume "set_ok w (stripables st) \<and> run st (map (Pair w) ops) = Inr st'"
  then have "set_ok w (stripables st')" using run_set_ok by blast
  then show "distinct (map (entry_identity w) (stripables st'))" by (rule set_ok_distinct_keys)
next
  assume r: "run CoreSelection_init (map (Pair w) ops) = Inr st'"
  have "set_ok w (stripables CoreSelection_init)" by (simp add: CoreSelection_init_def set_ok_def)
  then have "set_ok w (stripables st')" using r run_set_ok by blast
  then show "distinct (map (entry_identity w) (stripables st'))" by (rule set_ok_distinct_keys)
next
  assume "\<not> debug_selection w"
  then show "\<exists>st''. run st (map (Pair w) ops) = Inr st''" by (rule run_no_trace)
qed

text \<open>
  C8 as stated, with an expired reference counted as null, fails when objects expire
  between the calls: two stripables are added and expire, a third is added, and the
  selection holds two entries whose identity is the pair of null pointers.
\<close>

theorem C8_counterexample:
  "run CoreSelection_init
     [(world_all_alive, Add (Some 1) None), (world_all_alive, Add (Some 2) None),
      (world_only_3_alive, Add (Some 3) None)]
     = Inr selection_S1_S2_S3 \<and>
   \<not> distinct (map (entry_identity world_only_3_alive) (stripables selection_S1_S2_S3))"
  by (simp add: add_def CoreSelection_init_def selection_S1_S2_S3_def send_selection_change_def
      world_all_alive_def world_only_3_alive_def ss_less_def lock_def entry_identity_def)

theorem C8_one_entry_per_identity_witness:
  "set_ok world_all_alive (stripables CoreSelection_init) \<and>
   run CoreSelection_init (map (Pair world_all_alive) [Add (Some 1) None, Add (Some 2) None])
     = Inr selection_S1_S2 \<and>
   distinct (map (entry_identity world_all_alive) (stripables selection_S1_S2))"
  using C8_one_entry_per_identity [of world_all_alive CoreSelection_init
      "[Add (Some 1) None, Add (Some 2) None]" selection_S1_S2]
    selection_S1_S2_reached
  by (simp add: set_ok_def CoreSelection_init_def)

text \<open>
  C9. With the \<open>DEBUG::Selection\<close> trace active, \<open>add\<close> with a null stripable evaluates
  \<open>s->name()\<close> on the null pointer. (So does \<open>set\<close>, see
  \<open>set_selection_null_stripable_traced\<close>; \<open>remove\<close> and \<open>toggle\<close> format the pointer
  itself. With the trace off no operation faults, see \<open>perform_no_trace\<close>, and both
  queries are false at null, see \<open>selected_null\<close>.)
\<close>

theorem C9_add_null_stripable_traced:
  "add world_tracing CoreSelection_init None (Some 1) = Inl NullDereference"
  by (simp add: add_def world_tracing_def CoreSelection_init_def)

section \<open>The adapter on ordered entries\<close>

lemma rps_clear_frame:
  "axes (rps_clear st) = axes st \<and>
   processors (rps_clear st) = [] \<and>
   stripables (selection (rps_clear st)) = [] \<and>
   rps_selected (rps_clear st) v = rps_selected st v"
  by (simp add: rps_clear_def clear_routes_def clear_processors_def clear_stripables_def
      send_selection_change_def rps_selected_def)

lemma rps_add_remove_ordered:
  assumes "set_ok w (stripables (selection st))"
    and "\<not> (debug_selection w \<and> stripable_of v = None)"
  shows "axes (rps_remove w stripable_of st v) = axes st \<and>
     (\<exists>st1. rps_add w stripable_of st v = Inr st1 \<and>
        rps_selected (rps_remove w stripable_of st1 v) v \<and>
        \<not> list_ex (same_identity w (stripable_of v) None)
             (stripables (selection (rps_remove w stripable_of st1 v))) \<and>
        \<not> selected_stripable w (selection (rps_remove w stripable_of st1 v)) (stripable_of v))"
proof -
  have ax: "axes (rps_remove w stripable_of st v) = axes st"
    by (simp add: rps_remove_def)
  obtain st1 where a: "rps_add w stripable_of st v = Inr st1"
    and m: "v \<in> axes st1" and ok: "set_ok w (stripables (selection st1))"
  proof (cases "v \<in> axes st")
    case True
    then have "rps_add w stripable_of st v = Inr st" by (simp add: rps_add_def)
    then show ?thesis using that True assms(1) by blast
  next
    case False
    obtain cs where cs: "add w (selection st) (stripable_of v) None = Inr cs"
      using assms(2)
      by (cases "add w (selection st) (stripable_of v) None")
        (auto simp: add_def Let_def split: prod.splits if_splits)
    have "set_ok w (stripables cs)" using add_set_ok[OF assms(1) cs] .
    moreover have "rps_add w stripable_of st v =
        Inr (st\<lparr>axes := insert v (axes st), selection := cs\<rparr>)"
      using False cs by (simp add: rps_add_def)
    ultimately show ?thesis using that[of "st\<lparr>axes := insert v (axes st), selection := cs\<rparr>"]
      by simp
  qed
  let ?st2 = "rps_remove w stripable_of st1 v"
  have sel: "rps_selected ?st2 v" using m by (simp add: rps_selected_def rps_remove_def)
  have ni: "\<not> list_ex (same_identity w (stripable_of v) None) (stripables (selection ?st2))"
    using remove_no_identity[OF ok, of "stripable_of v" None] by (simp add: rps_remove_def)
  have ns: "\<not> selected_stripable w (selection ?st2) (stripable_of v)"
  proof
    assume "selected_stripable w (selection ?st2) (stripable_of v)"
    then obtain e where e: "e \<in> set (stripables (selection ?st2))"
        "lock w (stripable e) = stripable_of v" "controllable e = None" "stripable_of v \<noteq> None"
      by (auto simp: selected_stripable_iff)
    then have "lock w (stripable_of v) = stripable_of v"
      by (cases "stripable e") (auto simp: lock_def split: if_splits)
    then have "same_identity w (stripable_of v) None e"
      using e by (simp add: same_identity_def lock_def)
    then show False using ni e(1) by (auto simp: list_ex_iff)
  qed
  show ?thesis using ax a sel ni ns by blast
qed

section \<open>Properties of RouteProcessorSelection\<close>

text \<open>
  C2. \<open>clear\<close> should leave no view selected. On the code it empties the processor
  selection and the entries of the \<open>CoreSelection\<close> and leaves \<open>axes\<close> as it is: after
  \<open>add (v)\<close> and \<open>clear\<close> the view is still reported as selected, \<open>empty\<close> is false, and
  adding the view again does nothing, so its stripable stays out of the \<open>CoreSelection\<close>.
\<close>

theorem C2_clear_keeps_view:
  "rps_add world_all_alive own_stripable rps_init 7 = Inr rps_view_7 \<and>
   rps_selected (rps_clear rps_view_7) 7 \<and>
   \<not> rps_empty (rps_clear rps_view_7) \<and>
   stripables (selection (rps_clear rps_view_7)) = [] \<and>
   rps_add world_all_alive own_stripable (rps_clear rps_view_7) 7 = Inr (rps_clear rps_view_7)"
  by (simp add: rps_add_def rps_init_def rps_view_7_def own_stripable_def add_def
      CoreSelection_init_def send_selection_change_def rps_selected_def rps_clear_def
      clear_routes_def clear_processors_def rps_empty_def clear_stripables_def)

text \<open>
  C10, as amended. \<open>remove (view)\<close> leaves \<open>axes\<close> as it is, and after \<open>add (v)\<close> and
  \<open>remove (v)\<close> the adapter still reports \<open>v\<close> as selected. When the entries of the
  \<open>CoreSelection\<close> are in comparator order, it then holds no entry with the identity of
  \<open>v\<close>'s stripable alone and does not report the stripable as selected. The trace of
  \<open>add\<close> dereferences a null stripable; that case is left to C9.
\<close>

theorem C10_remove_keeps_axes:
  "axes (rps_remove w stripable_of st v) = axes st \<and>
   (\<not> (debug_selection w \<and> stripable_of v = None) \<longrightarrow>
      (\<exists>st1. rps_add w stripable_of st v = Inr st1 \<and>
         rps_selected (rps_remove w stripable_of st1 v) v)) \<and>
   (set_ok w (stripables (selection st)) \<and>
    \<not> (debug_selection w \<and> stripable_of v = None) \<longrightarrow>
      (\<exists>st1. rps_add w stripable_of st v = Inr st1 \<and>
         rps_selected (rps_remove w stripable_of st1 v) v \<and>
         \<not> list_ex (same_identity w (stripable_of v) None)
              (stripables (selection (rps_remove w stripable_of st1 v))) \<and>
         \<not> selected_stripable w (selection (rps_remove w stripable_of st1 v)) (stripable_of v)))"
proof (intro conjI impI)
  show "axes (rps_remove w stripable_of st v) = axes st"
    by (simp add: rps_remove_def)
next
  assume d: "\<not> (debug_selection w \<and> stripable_of v = None)"
  show "\<exists>st1. rps_add w stripable_of st v = Inr st1 \<and>
         rps_selected (rps_remove w stripable_of st1 v) v"
  proof (cases "v \<in> axes st")
    case True
    then show ?thesis by (simp add: rps_add_def rps_selected_def rps_remove_def)
  next
    case False
    obtain cs where cs: "add w (selection st) (stripable_of v) None = Inr cs"
      using d
      by (cases "add w (selection st) (stripable_of v) None")
        (auto simp: add_def Let_def split: prod.splits if_splits)
    then show ?thesis using False by (simp add: rps_add_def rps_selected_def rps_remove_def)
  qed
next
  assume "set_ok w (stripables (selection st)) \<and>
    \<not> (debug_selection w \<and> stripable_of v = None)"
  then show "\<exists>st1. rps_add w stripable_of st v = Inr st1 \<and>
         rps_selected (rps_remove w stripable_of st1 v) v \<and>
         \<not> list_ex (same_identity w (stripable_of v) None)
              (stripables (selection (rps_remove w stripable_of st1 v))) \<and>
         \<not> selected_stripable w (selection (rps_remove w stripable_of st1 v)) (stripable_of v)"
    using rps_add_remove_ordered[of w st stripable_of v] by blast
qed

text \<open>
  C10 as stated, for every selection, fails after an expiry: with three controls of the
  view's stripable selected and the third expired, \<open>add (v)\<close> inserts an entry for the
  stripable, \<open>remove (v)\<close> erases that entry, and the entry of the expired control, whose
  identity is that of the stripable alone, stays in the \<open>CoreSelection\<close>.
\<close>

theorem C10_counterexample:
  "run CoreSelection_init
     [(world_all_alive, Add (Some 1) (Some 11)), (world_all_alive, Add (Some 1) (Some 12)),
      (world_all_alive, Add (Some 1) (Some 13))]
     = Inr (selection rps_three_controls) \<and>
   rps_add world_13_expired own_stripable rps_three_controls 1
     = Inr rps_three_controls_and_view_1 \<and>
   stripables (selection
       (rps_remove world_13_expired own_stripable rps_three_controls_and_view_1 1))
     = stripables selection_three_controls \<and>
   list_ex (same_identity world_13_expired (own_stripable 1) None)
     (stripables (selection
        (rps_remove world_13_expired own_stripable rps_three_controls_and_view_1 1)))"
  using selection_three_controls_reached
  by (simp add: rps_add_def rps_remove_def rps_three_controls_def
      rps_three_controls_and_view_1_def own_stripable_def add_def remove_def set_erase_def
      selection_three_controls_def selection_three_controls_and_S1_def
      send_selection_change_def world_13_expired_def ss_less_def lock_def same_identity_def)

theorem C10_remove_keeps_axes_witness:
  "set_ok world_all_alive (stripables (selection rps_init)) \<and>
   rps_add world_all_alive own_stripable rps_init 7 = Inr rps_view_7 \<and>
   axes (rps_remove world_all_alive own_stripable rps_view_7 7) = {7} \<and>
   rps_selected (rps_remove world_all_alive own_stripable rps_view_7 7) 7 \<and>
   \<not> selected_stripable world_all_alive
       (selection (rps_remove world_all_alive own_stripable rps_view_7 7)) (own_stripable 7)"
  using C10_remove_keeps_axes [of world_all_alive own_stripable rps_init 7]
    rps_view_7_reached
  by (simp add: set_ok_def rps_init_def CoreSelection_init_def world_all_alive_def
      own_stripable_def rps_remove_def rps_view_7_def)

end
